theory Spec2Isabelle
  imports Main "HOL-Library.Signed_Division"
begin

unbundle bit_operations_syntax

section \<open>BigInt arithmetic of the Montgomery module\<close>

text \<open>
  The Montgomery module computes on JavaScript \<^verbatim>\<open>bigint\<close> values: unbounded integers,
  modelled as \<^typ>\<open>int\<close>. The bitwise operators act on the infinite two's complement
  representation, as \<open>AND\<close> and \<open>OR\<close> on \<^typ>\<open>int\<close> do. Division \<^verbatim>\<open>/\<close> truncates towards
  zero (\<open>sdiv\<close>), the remainder \<^verbatim>\<open>%\<close> takes the sign of the dividend (\<open>smod\<close>), and
  both throw a \<^verbatim>\<open>RangeError\<close> on a zero divisor. A shift by a negative count shifts
  the other way. Loop counters and bit counts, which only ever count up from zero, are
  \<^typ>\<open>nat\<close>.
\<close>

datatype error = Error string | RangeError string | TypeError string

definition bigint_div :: "int \<Rightarrow> int \<Rightarrow> error + int" where
  "bigint_div a b = (if b = 0 then Inl (RangeError ''Division by zero'') else Inr (a sdiv b))"

definition bigint_rem :: "int \<Rightarrow> int \<Rightarrow> error + int" where
  "bigint_rem a b = (if b = 0 then Inl (RangeError ''Division by zero'') else Inr (a smod b))"

definition shl :: "int \<Rightarrow> int \<Rightarrow> int" where
  "shl a s = (if 0 \<le> s then push_bit (nat s) a else drop_bit (nat (- s)) a)"

definition shr :: "int \<Rightarrow> int \<Rightarrow> int" where
  "shr a s = (if 0 \<le> s then drop_bit (nat s) a else push_bit (nat (- s)) a)"

text \<open>Sequencing of computations that may throw: the first error wins.\<close>

definition and_then :: "error + 'a \<Rightarrow> ('a \<Rightarrow> error + 'b) \<Rightarrow> error + 'b" where
  "and_then x f = (case x of Inl e \<Rightarrow> Inl e | Inr v \<Rightarrow> f v)"

subsection \<open>bitLength\<close>

text \<open>
  \<^verbatim>\<open>n.toString(2)\<close>: the binary digits of the magnitude, most significant first, with a
  leading minus sign for a negative number; zero prints as the single digit 0.
\<close>

fun digits2 :: "nat \<Rightarrow> string" where
  "digits2 k = (if k < 2 then [if k = 0 then CHR ''0'' else CHR ''1'']
                else digits2 (k div 2) @ [if even k then CHR ''0'' else CHR ''1''])"

declare digits2.simps [simp del]

definition toString2 :: "int \<Rightarrow> string" where
  "toString2 a = (if a < 0 then CHR ''-'' # digits2 (nat (- a)) else digits2 (nat a))"

definition bitLength :: "int \<Rightarrow> nat" where
  "bitLength a = length (toString2 a)"

subsection \<open>gcd\<close>

text \<open>
  The binary gcd. Its three \<^verbatim>\<open>while\<close> loops halve a number until it is odd, which never
  ends on zero, so each loop is a partial function and not returning is \<open>None\<close>.
  \<open>strip_shared\<close> is the first loop, \<open>strip_twos\<close> each of the two inner loops, and
  \<open>gcd_loop\<close> the main loop, which returns the final value of \<^verbatim>\<open>b\<close>.
\<close>

partial_function (option) strip_shared :: "int \<Rightarrow> int \<Rightarrow> int \<Rightarrow> (int \<times> int \<times> int) option" where
  "strip_shared a b sharedTwoFactors =
     (if (a AND 1) OR (b AND 1) = 0
      then strip_shared (shr a 1) (shr b 1) (sharedTwoFactors + 1)
      else Some (a, b, sharedTwoFactors))"

partial_function (option) strip_twos :: "int \<Rightarrow> int option" where
  "strip_twos a = (if a AND 1 = 0 then strip_twos (shr a 1) else Some a)"

partial_function (option) gcd_loop :: "int \<Rightarrow> int \<Rightarrow> int option" where
  "gcd_loop a b =
     (if a \<noteq> b \<and> b > 1
      then
        (case strip_twos a of
           None \<Rightarrow> None
         | Some a1 \<Rightarrow>
             (case strip_twos b of
                None \<Rightarrow> None
              | Some b1 \<Rightarrow>
                  if b1 > a1 then gcd_loop (b1 - a1) a1
                  else if a1 = b1 then Some b1
                  else gcd_loop (a1 - b1) b1))
      else Some b)"

definition gcd_bigint :: "int \<Rightarrow> int \<Rightarrow> int option" where
  "gcd_bigint a b =
     (if a = b then Some a
      else if a = 0 then Some b
      else if b = 0 then Some a
      else
        (case strip_shared a b 0 of
           None \<Rightarrow> None
         | Some (a', b', sharedTwoFactors) \<Rightarrow>
             (case gcd_loop a' b' of
                None \<Rightarrow> None
              | Some g \<Rightarrow> Some (shl g sharedTwoFactors))))"

text \<open>
  The reference the specification compares with: the Euclidean algorithm by repeated
  remainders.
\<close>

function euclid :: "int \<Rightarrow> int \<Rightarrow> int" where
  "euclid a b = (if b = 0 then a else euclid b (a mod b))"
  by pat_completeness auto
termination
  by (relation "measure (\<lambda>(a, b). nat \<bar>b\<bar>)") (auto simp: abs_mod_less)

declare euclid.simps [simp del]

declare strip_shared.simps [code] strip_twos.simps [code] gcd_loop.simps [code]

subsection \<open>invert\<close>

function invert_loop :: "nat \<Rightarrow> nat \<Rightarrow> int \<Rightarrow> int \<Rightarrow> int" where
  "invert_loop i ex b iv =
     (if i < ex
      then invert_loop (i + 1) ex b (shr (if iv AND 1 \<noteq> 0 then iv + b else iv) 1)
      else iv)"
  by pat_completeness auto
termination
  by (relation "measure (\<lambda>(i, ex, b, iv). ex - i)") auto

declare invert_loop.simps [simp del]

definition invert :: "nat \<Rightarrow> int \<Rightarrow> int" where
  "invert ex b = invert_loop 0 ex b 1"

subsection \<open>The reduction context\<close>

record MontgomeryReductionContext =
  base :: int
  shift :: int
  r :: int
  rInv :: int
  baseInv :: int

definition reductionContextFor :: "int \<Rightarrow> error + MontgomeryReductionContext" where
  "reductionContextFor b =
     (if b AND 1 = 0 then Inl (Error ''base must be odd'')
      else
        let numBits = bitLength b;
            littleShift = numBits + 1;
            sh = int littleShift;
            rr = shl 1 sh;
            ri = invert littleShift b
        in and_then (bigint_div (ri * rr - 1) b) (\<lambda>q.
           and_then (bigint_rem q rr) (\<lambda>q'.
             Inr \<lparr>base = b, shift = sh, r = rr, rInv = ri, baseInv = rr - q'\<rparr>)))"

subsection \<open>The arithmetic engine\<close>

definition reduce :: "int \<Rightarrow> MontgomeryReductionContext \<Rightarrow> error + int" where
  "reduce a ctx = bigint_rem (shl a (shift ctx)) (base ctx)"

definition invReduce :: "int \<Rightarrow> MontgomeryReductionContext \<Rightarrow> error + int" where
  "invReduce a ctx = bigint_rem (a * rInv ctx) (base ctx)"

text \<open>
  \<open>redc\<close> is the value of the variable \<^verbatim>\<open>product\<close> of \<^verbatim>\<open>mul\<close> before the correction
  step; \<open>mul\<close> short-circuits on a zero operand and applies at most one correction.
\<close>

definition redc :: "int \<Rightarrow> int \<Rightarrow> MontgomeryReductionContext \<Rightarrow> int" where
  "redc a b ctx =
     (let rm1 = r ctx - 1;
          t = a * b;
          c = (((t AND rm1) * baseInv ctx) AND rm1) * base ctx
      in shr (t - c) (shift ctx))"

definition mul :: "int \<Rightarrow> int \<Rightarrow> MontgomeryReductionContext \<Rightarrow> int" where
  "mul a b ctx =
     (if a = 0 \<or> b = 0 then 0
      else
        let product = redc a b ctx
        in if product \<ge> base ctx then product - base ctx
           else if product < 0 then product + base ctx
           else product)"

definition sqr :: "int \<Rightarrow> MontgomeryReductionContext \<Rightarrow> error + int" where
  "sqr a ctx = bigint_rem (mul a a ctx) (base ctx)"

text \<open>
  The loop of \<^verbatim>\<open>pow\<close>: the body multiplies when bit \<open>i\<close> of the exponent is set, and
  the update clause of the \<^verbatim>\<open>for\<close> statement squares \<open>x\<close> after every iteration.
\<close>

function pow_loop ::
  "MontgomeryReductionContext \<Rightarrow> int \<Rightarrow> nat \<Rightarrow> nat \<Rightarrow> int \<Rightarrow> int \<Rightarrow> error + int" where
  "pow_loop ctx ex expLen i x result =
     (if i < expLen
      then
        let result' = (if ex AND shl 1 (int i) \<noteq> 0 then mul result x ctx else result)
        in and_then (sqr x ctx) (\<lambda>x'. pow_loop ctx ex expLen (i + 1) x' result')
      else Inr result)"
  by pat_completeness auto
termination
  by (relation "measure (\<lambda>(ctx, ex, expLen, i, x, result). expLen - i)") auto

declare pow_loop.simps [simp del]

definition pow :: "int \<Rightarrow> int \<Rightarrow> MontgomeryReductionContext \<Rightarrow> error + int" where
  "pow a ex ctx =
     (let expLen = bitLength ex
      in and_then (reduce 1 ctx) (\<lambda>one. pow_loop ctx ex expLen 0 a one))"

section \<open>The Miller-Rabin tester\<close>

text \<open>
  \<^verbatim>\<open>testPrimality\<close> computes on \<^verbatim>\<open>BN\<close> values of the library bn.js: unbounded signed
  integers, modelled as \<^typ>\<open>int\<close>. Of the library, \<^verbatim>\<open>ltn\<close>, \<^verbatim>\<open>gtn\<close>, \<^verbatim>\<open>lt\<close>, \<^verbatim>\<open>eq\<close> and
  \<^verbatim>\<open>eqn\<close> compare, \<^verbatim>\<open>subn\<close> subtracts, \<^verbatim>\<open>div\<close> truncates towards zero (\<open>sdiv\<close>),
  \<^verbatim>\<open>mod\<close> takes the sign of the dividend (\<open>smod\<close>), \<^verbatim>\<open>pow\<close> and \<^verbatim>\<open>sqr\<close> are exact,
  \<^verbatim>\<open>bitLength\<close> counts the binary digits of the magnitude (none for zero) and
  \<^verbatim>\<open>zeroBits\<close> its trailing zero bits (none for zero). With radix 2 the constructor
  reads a string of binary digits, most significant first (\<open>bn_of_bits\<close>, a digit 1 being
  \<open>True\<close>).

  The constructor applied to the caller's input, a number, a string or a \<^verbatim>\<open>BN\<close>, is the
  parameter \<open>BN\<close> of \<open>testPrimality\<close>. It throws, or it returns an integer (\<open>Num\<close>), or
  it returns an object that is no usable number (\<open>Unusable\<close>): the first method call of
  the body, \<^verbatim>\<open>n.ltn(2)\<close>, throws on it the error it carries. \<^verbatim>\<open>new BN(null)\<close>, an object
  without digits, is one. The \<^verbatim>\<open>try\<close> statement encloses the whole body, so both a throw
  of the constructor and a throw of that first call reject the promise.
\<close>

datatype bn = Num int | Unusable error

fun bn_bits :: "nat \<Rightarrow> nat" where
  "bn_bits k = (if k = 0 then 0 else Suc (bn_bits (k div 2)))"

declare bn_bits.simps [simp del]

definition bn_bitLength :: "int \<Rightarrow> nat" where
  "bn_bitLength v = bn_bits (nat \<bar>v\<bar>)"

fun bn_trailing_zeros :: "nat \<Rightarrow> nat" where
  "bn_trailing_zeros k = (if k = 0 \<or> odd k then 0 else Suc (bn_trailing_zeros (k div 2)))"

declare bn_trailing_zeros.simps [simp del]

definition bn_zeroBits :: "int \<Rightarrow> nat" where
  "bn_zeroBits v = bn_trailing_zeros (nat \<bar>v\<bar>)"

definition bn_of_bits :: "bool list \<Rightarrow> int" where
  "bn_of_bits bs = foldl (\<lambda>acc b. 2 * acc + (if b then 1 else 0)) 0 bs"

text \<open>
  The result record, and the two ways the promise of \<^verbatim>\<open>testPrimality\<close> settles. A run
  that never settles it is \<open>None\<close>.
\<close>

record MillerRabinResult =
  n :: int
  probablePrime :: bool
  witness :: "int option"

datatype outcome = Resolved MillerRabinResult | Rejected error

text \<open>
  \<^verbatim>\<open>getRandomBitString\<close> draws from \<^verbatim>\<open>Math.random\<close> until it has \<open>numBits\<close> binary
  digits and cuts the string to that length. The random source is the parameter \<open>rng\<close>:
  \<open>rng call i\<close> is digit \<open>i\<close> of the supply of the call number \<open>call\<close>, a supply taken
  to be as long as the call needs. The count of calls made so far is the state the tester
  threads through its rounds and returns.
\<close>

definition getRandomBitString :: "(nat \<Rightarrow> nat \<Rightarrow> bool) \<Rightarrow> nat \<Rightarrow> nat \<Rightarrow> bool list" where
  "getRandomBitString rng call numBits = map (rng call) [0..<numBits]"

text \<open>
  The \<^verbatim>\<open>do ... while\<close> loop that selects a base: it draws again while the candidate is
  not greater than 2 or not less than \<open>n - 1\<close>. Nothing bounds the number of draws.
\<close>

partial_function (option) sample_base ::
  "(nat \<Rightarrow> nat \<Rightarrow> bool) \<Rightarrow> nat \<Rightarrow> int \<Rightarrow> nat \<Rightarrow> (int \<times> nat) option" where
  "sample_base rng nBits nSub call =
     (let b = bn_of_bits (getRandomBitString rng call nBits)
      in if \<not> b > 2 \<or> \<not> b < nSub
         then sample_base rng nBits nSub (call + 1)
         else Some (b, call + 1))"

declare sample_base.simps [code]

text \<open>
  One round. The inner loop ends in one of three ways: \<open>x = 1\<close> (\<^verbatim>\<open>break outer\<close> with the
  base as witness), \<open>x = n - 1\<close> (\<^verbatim>\<open>break\<close>), or its counter reaches \<open>r\<close>; after the
  last two the test \<^verbatim>\<open>i === r\<close> decides. \<open>s\<close> stands for the variable \<^verbatim>\<open>r\<close> of the source.
\<close>

datatype round_outcome = Passed | Composite

function inner_loop :: "int \<Rightarrow> int \<Rightarrow> nat \<Rightarrow> nat \<Rightarrow> int \<Rightarrow> round_outcome" where
  "inner_loop v nSub s i x =
     (if i < s
      then
        let x' = (x * x) smod v
        in if x' = 1 then Composite
           else if x' = nSub then (if i = s then Composite else Passed)
           else inner_loop v nSub s (i + 1) x'
      else (if i = s then Composite else Passed))"
  by pat_completeness auto
termination
  by (relation "measure (\<lambda>(v, nSub, s, i, x). s - i)") auto

declare inner_loop.simps [simp del]

definition test_round :: "int \<Rightarrow> int \<Rightarrow> nat \<Rightarrow> int \<Rightarrow> int \<Rightarrow> round_outcome" where
  "test_round v nSub s d b =
     (let x = (b ^ nat d) smod v
      in if x = 1 \<or> x = nSub then Passed else inner_loop v nSub s 0 x)"

text \<open>
  The loop over the rounds returns the final values of \<^verbatim>\<open>probablePrime\<close> and
  \<^verbatim>\<open>witness\<close>, and the number of calls of \<^verbatim>\<open>getRandomBitString\<close> made.
\<close>

function rounds_loop ::
  "(nat \<Rightarrow> nat \<Rightarrow> bool) \<Rightarrow> int \<Rightarrow> nat \<Rightarrow> int \<Rightarrow> nat \<Rightarrow> int \<Rightarrow> int \<Rightarrow> int \<Rightarrow> nat
     \<Rightarrow> ((bool \<times> int option) \<times> nat) option" where
  "rounds_loop rng v nBits nSub s d numRounds round call =
     (if round < numRounds
      then
        (case sample_base rng nBits nSub call of
           None \<Rightarrow> None
         | Some (b, call') \<Rightarrow>
             (case test_round v nSub s d b of
                Passed \<Rightarrow> rounds_loop rng v nBits nSub s d numRounds (round + 1) call'
              | Composite \<Rightarrow> Some ((False, Some b), call')))
      else Some ((True, None), call))"
  by pat_completeness auto
termination
  by (relation "measure (\<lambda>(rng, v, nBits, nSub, s, d, numRounds, round, call).
        nat (numRounds - round))") auto

declare rounds_loop.simps [simp del]

text \<open>An omitted \<^verbatim>\<open>numRounds\<close> is 2.\<close>

definition rounds_of :: "int option \<Rightarrow> int" where
  "rounds_of numRounds = (case numRounds of None \<Rightarrow> 2 | Some k \<Rightarrow> k)"

definition testPrimality ::
  "('i \<Rightarrow> error + bn) \<Rightarrow> (nat \<Rightarrow> nat \<Rightarrow> bool) \<Rightarrow> 'i \<Rightarrow> int option
     \<Rightarrow> (outcome \<times> nat) option" where
  "testPrimality BN rng input numRounds_opt =
     (let numRounds = rounds_of numRounds_opt
      in case BN input of
           Inl err \<Rightarrow> Some (Rejected err, 0)
         | Inr (Unusable err) \<Rightarrow> Some (Rejected err, 0)
         | Inr (Num v) \<Rightarrow>
             if v < 2
             then Some (Resolved \<lparr>n = v, probablePrime = False, witness = None\<rparr>, 0)
             else if v < 4
             then Some (Resolved \<lparr>n = v, probablePrime = True, witness = None\<rparr>, 0)
             else
               let nBits = bn_bitLength v;
                   nSub = v - 1;
                   s = bn_zeroBits nSub;
                   d = nSub sdiv (2 ^ s)
               in (case rounds_loop rng v nBits nSub s d numRounds 0 0 of
                     None \<Rightarrow> None
                   | Some ((pp, w), calls) \<Rightarrow>
                       Some (Resolved \<lparr>n = v, probablePrime = pp, witness = w\<rparr>, calls)))"

section \<open>Auxiliary notions for the proofs\<close>

text \<open>The context that \<^verbatim>\<open>reductionContextFor\<close> builds for an odd modulus, in closed form.\<close>

definition ctx_of :: "int \<Rightarrow> MontgomeryReductionContext" where
  "ctx_of b =
     \<lparr>base = b, shift = int (bitLength b + 1), r = 2 ^ (bitLength b + 1),
      rInv = invert (bitLength b + 1) b,
      baseInv = 2 ^ (bitLength b + 1)
        - ((invert (bitLength b + 1) b * 2 ^ (bitLength b + 1) - 1) sdiv b) smod 2 ^ (bitLength b + 1)\<rparr>"

text \<open>
  The invariants of the data model as the specification words them, with
  \<open>base * baseInv\<close> congruent to \<open>-1\<close> modulo \<open>r\<close>.
\<close>

definition spec_context_invariants :: "MontgomeryReductionContext \<Rightarrow> bool" where
  "spec_context_invariants ctx \<longleftrightarrow>
     odd (base ctx) \<and> r ctx > base ctx
     \<and> (rInv ctx * r ctx) mod base ctx = 1 mod base ctx
     \<and> (base ctx * baseInv ctx) mod r ctx = (- 1) mod r ctx"

text \<open>
  What the engine needs from a context, and the relation between a value \<open>v\<close> and its
  Montgomery form \<open>y\<close>.
\<close>

definition mont_ctx :: "MontgomeryReductionContext \<Rightarrow> bool" where
  "mont_ctx ctx \<longleftrightarrow>
     odd (base ctx) \<and> 0 < base ctx \<and> 0 \<le> shift ctx \<and> r ctx = 2 ^ nat (shift ctx)
     \<and> base ctx < r ctx \<and> 0 < rInv ctx
     \<and> (rInv ctx * r ctx) mod base ctx = 1 mod base ctx
     \<and> (base ctx * baseInv ctx) mod r ctx = 1 mod r ctx"

definition mont_rep :: "MontgomeryReductionContext \<Rightarrow> int \<Rightarrow> int \<Rightarrow> bool" where
  "mont_rep ctx y v \<longleftrightarrow> 0 \<le> y \<and> y < base ctx \<and> y mod base ctx = (v * r ctx) mod base ctx"

text \<open>
  The bases of \<open>k\<close> successive selections starting at call number \<open>call\<close>, with the call
  count after them: what the rounds would draw if every one of them ran.
\<close>

fun sample_seq ::
  "(nat \<Rightarrow> nat \<Rightarrow> bool) \<Rightarrow> nat \<Rightarrow> int \<Rightarrow> nat \<Rightarrow> nat \<Rightarrow> (int list \<times> nat) option" where
  "sample_seq rng nBits nSub call 0 = Some ([], call)"
| "sample_seq rng nBits nSub call (Suc k) =
     (case sample_base rng nBits nSub call of
        None \<Rightarrow> None
      | Some (b, call') \<Rightarrow>
          (case sample_seq rng nBits nSub call' k of
             None \<Rightarrow> None
           | Some (bs, c) \<Rightarrow> Some (b # bs, c)))"

text \<open>
  \<open>witness_found ... call k b c\<close>: of the rounds that start drawing at \<open>call\<close>, the first
  \<open>k\<close> pass, round \<open>k\<close> selects the base \<open>b\<close> and proves compositeness with it, and \<open>c\<close>
  calls have been made once \<open>b\<close> is selected. \<open>earliest_witness\<close> is the same for a whole
  test of the candidate \<open>v\<close>.
\<close>

definition witness_found ::
  "(nat \<Rightarrow> nat \<Rightarrow> bool) \<Rightarrow> int \<Rightarrow> nat \<Rightarrow> int \<Rightarrow> nat \<Rightarrow> int \<Rightarrow> nat \<Rightarrow> nat \<Rightarrow> int \<Rightarrow> nat
     \<Rightarrow> bool" where
  "witness_found rng v nBits nSub s d call k b c =
     (case sample_seq rng nBits nSub call (Suc k) of
        None \<Rightarrow> False
      | Some (bs, c') \<Rightarrow>
          c' = c \<and> last bs = b
          \<and> list_all (\<lambda>p. test_round v nSub s d p = Passed) (butlast bs)
          \<and> test_round v nSub s d b = Composite)"

definition earliest_witness ::
  "(nat \<Rightarrow> nat \<Rightarrow> bool) \<Rightarrow> int \<Rightarrow> nat \<Rightarrow> int \<Rightarrow> nat \<Rightarrow> bool" where
  "earliest_witness rng v k b c =
     (let nBits = bn_bitLength v;
          nSub = v - 1;
          s = bn_zeroBits nSub;
          d = nSub sdiv (2 ^ s)
      in 4 \<le> v \<and> witness_found rng v nBits nSub s d 0 k b c)"

text \<open>A random source that supplies the listed digit strings, one per call, then zeros.\<close>

definition rng_of :: "bool list list \<Rightarrow> nat \<Rightarrow> nat \<Rightarrow> bool" where
  "rng_of draws call i =
     (call < length draws \<and> i < length (draws ! call) \<and> draws ! call ! i)"

text \<open>
  A constructor that reads the string \<^verbatim>\<open>-5\<close> as the integer -5, returns an object without
  digits for \<^verbatim>\<open>null\<close>, and throws on every other input.
\<close>

definition sample_BN :: "string \<Rightarrow> error + bn" where
  "sample_BN i =
     (if i = ''-5'' then Inr (Num (- 5))
      else if i = ''null'' then Inr (Unusable (TypeError ''Cannot read properties of null''))
      else Inl (Error ''Invalid character''))"

section \<open>Construction of the reduction context\<close>

lemma and_1_eq_0_iff: "(a AND 1 = 0) = even a" for a :: int
  by (simp add: and_one_eq mod_2_eq_odd)

lemma shl_nonneg: "0 \<le> s \<Longrightarrow> shl a s = a * 2 ^ nat s"
  by (simp add: shl_def push_bit_eq_mult)

lemma shr_nonneg: "0 \<le> s \<Longrightarrow> shr a s = a div 2 ^ nat s"
  by (simp add: shr_def drop_bit_eq_div)

subsection \<open>The inverse of a power of two\<close>

lemma invert_loop_step:
  assumes "odd b" "i \<le> ex"
  shows "b dvd (invert_loop i ex b iv * 2 ^ (ex - i) - iv)"
  using assms
proof (induction i ex b iv rule: invert_loop.induct)
  case (1 i ex b iv)
  show ?case
  proof (cases "i < ex")
    case False
    then show ?thesis using 1 by (simp add: invert_loop.simps)
  next
    case True
    define iv' where "iv' = shr (if iv AND 1 \<noteq> 0 then iv + b else iv) 1"
    have two: "2 * iv' = (if odd iv then iv + b else iv)"
      using \<open>odd b\<close> by (auto simp: iv'_def shr_nonneg and_1_eq_0_iff)
    have IH: "b dvd (invert_loop (i + 1) ex b iv' * 2 ^ (ex - (i + 1)) - iv')"
      using 1 True by (simp add: iv'_def)
    have unf: "invert_loop i ex b iv = invert_loop (i + 1) ex b iv'"
      using True by (subst invert_loop.simps) (simp add: iv'_def)
    have pw: "(2::int) ^ (ex - i) = 2 * 2 ^ (ex - (i + 1))"
      using True by (metis Suc_diff_Suc Suc_eq_plus1 diff_Suc_Suc power_Suc add.commute plus_1_eq_Suc)
    from IH have "b dvd 2 * (invert_loop (i + 1) ex b iv' * 2 ^ (ex - (i + 1)) - iv')"
      by (rule dvd_mult)
    then have "b dvd (invert_loop (i + 1) ex b iv' * 2 ^ (ex - i) - 2 * iv')"
      by (simp add: pw algebra_simps)
    moreover have "b dvd (2 * iv' - iv)"
      using two by (auto split: if_splits)
    ultimately have "b dvd ((invert_loop (i + 1) ex b iv' * 2 ^ (ex - i) - 2 * iv') + (2 * iv' - iv))"
      by (rule dvd_add)
    then show ?thesis by (simp add: unf)
  qed
qed

lemma invert_loop_range:
  assumes "odd b" "0 < b" "0 < iv" "iv \<le> b"
  shows "0 < invert_loop i ex b iv \<and> invert_loop i ex b iv \<le> b"
  using assms
proof (induction i ex b iv rule: invert_loop.induct)
  case (1 i ex b iv)
  show ?case
  proof (cases "i < ex")
    case False
    then show ?thesis using 1 by (simp add: invert_loop.simps)
  next
    case True
    define iv' where "iv' = shr (if iv AND 1 \<noteq> 0 then iv + b else iv) 1"
    have two: "2 * iv' = (if odd iv then iv + b else iv)"
      using \<open>odd b\<close> by (auto simp: iv'_def shr_nonneg and_1_eq_0_iff)
    have rng: "0 < iv' \<and> iv' \<le> b"
      using two 1(3-5) by (auto split: if_splits elim!: evenE)
    have unf: "invert_loop i ex b iv = invert_loop (i + 1) ex b iv'"
      using True by (subst invert_loop.simps) (simp add: iv'_def)
    show ?thesis
      using 1(1)[OF True \<open>odd b\<close> \<open>0 < b\<close>] rng unfolding unf iv'_def by simp
  qed
qed

lemma invert_dvd: "odd b \<Longrightarrow> b dvd (invert k b * 2 ^ k - 1)"
  using invert_loop_step [of b 0 k 1] by (simp add: invert_def)

lemma invert_range: "odd b \<Longrightarrow> 0 < b \<Longrightarrow> 0 < invert k b \<and> invert k b \<le> b"
  using invert_loop_range [of b 1 0 k] by (simp add: invert_def)

subsection \<open>Bit lengths\<close>

lemma digits2_length_bound: "k < 2 ^ length (digits2 k)"
proof (induction k rule: digits2.induct)
  case (1 k)
  show ?case
  proof (cases "k < 2")
    case True
    then show ?thesis by (subst digits2.simps) simp
  next
    case False
    with 1 have "k div 2 < 2 ^ length (digits2 (k div 2))" by simp
    then have "k < 2 * 2 ^ length (digits2 (k div 2))" by linarith
    then show ?thesis using False by (subst digits2.simps) simp
  qed
qed

lemma digits2_length_pos: "0 < length (digits2 k)"
  by (subst digits2.simps) simp

lemma bitLength_bound: "a < 2 ^ bitLength a"
proof (cases "a < 0")
  case True
  have "(0::int) < 2 ^ bitLength a" by simp
  with True show ?thesis by linarith
next
  case False
  then have "nat a < 2 ^ length (digits2 (nat a))"
    using digits2_length_bound by blast
  then have "int (nat a) < int (2 ^ length (digits2 (nat a)))"
    by (simp only: of_nat_less_iff)
  with False show ?thesis by (simp add: bitLength_def toString2_def)
qed

lemma bitLength_0: "bitLength 0 = 1"
  by (simp add: bitLength_def toString2_def digits2.simps)

subsection \<open>The context of an odd modulus\<close>

lemma reductionContextFor_odd:
  assumes "odd b"
  shows "reductionContextFor b = Inr (ctx_of b)"
proof -
  from assms have "b \<noteq> 0" by auto
  then show ?thesis
    using assms
    by (simp add: reductionContextFor_def and_1_eq_0_iff Let_def and_then_def
        bigint_div_def bigint_rem_def shl_nonneg ctx_of_def del: power_Suc)
qed

text \<open>
  Claim C9. \<^verbatim>\<open>reductionContextFor\<close> throws exactly when the modulus is even. The test is
  the first statement of the function: for an even modulus the result is the error
  \<^verbatim>\<open>base must be odd\<close> and no context.
\<close>

theorem reductionContextFor_error_iff_even:
  "((\<exists>e. reductionContextFor b = Inl e) \<longleftrightarrow> even b)
   \<and> (even b \<longrightarrow> reductionContextFor b = Inl (Error ''base must be odd''))"
proof -
  have even: "reductionContextFor b = Inl (Error ''base must be odd'')" if "even b"
    using that by (simp add: reductionContextFor_def and_1_eq_0_iff)
  have "reductionContextFor b = Inr (ctx_of b)" if "odd b"
    using that by (rule reductionContextFor_odd)
  with even show ?thesis by (cases "even b") auto
qed

theorem reductionContextFor_error_iff_even_witness:
  "reductionContextFor 6 = Inl (Error ''base must be odd'')
   \<and> (\<nexists>e. reductionContextFor 7 = Inl e)"
  using reductionContextFor_error_iff_even [of 6] reductionContextFor_error_iff_even [of 7]
  by simp

lemma sdiv_exact: "b dvd a \<Longrightarrow> (a sdiv b) * b = a" for a b :: int
proof (cases "b = 0")
  case True
  assume "b dvd a"
  with True show ?thesis by simp
next
  case False
  assume "b dvd a"
  then obtain k where k: "a = b * k" by (auto simp: dvd_def)
  have "\<bar>b * k\<bar> div \<bar>b\<bar> = \<bar>k\<bar>" using False by (simp add: abs_mult)
  moreover have "sgn (b * k) * sgn b = sgn k"
  proof -
    have "sgn b * sgn b = 1" using False by (simp add: sgn_if)
    then have "sgn k * (sgn b * sgn b) = sgn k" by simp
    then show ?thesis by (simp add: sgn_mult mult.commute mult.left_commute)
  qed
  ultimately have "a sdiv b = sgn k * \<bar>k\<bar>"
    unfolding k signed_divide_int_def by simp
  then have "a sdiv b = k" by (simp add: sgn_mult_abs)
  then show ?thesis by (simp add: k)
qed

lemma smod_cong: "b dvd (a smod b - a)" for a b :: int
proof -
  have "a smod b - a = - (a sdiv b * b)"
    using sdiv_mult_smod_eq [of a b] by linarith
  then show ?thesis by simp
qed

lemma ctx_of_invariants:
  assumes "odd b"
  shows "odd (base (ctx_of b))"
    and "base (ctx_of b) < r (ctx_of b)"
    and "base (ctx_of b) dvd (rInv (ctx_of b) * r (ctx_of b) - 1)"
    and "r (ctx_of b) dvd (base (ctx_of b) * baseInv (ctx_of b) - 1)"
proof -
  let ?k = "bitLength b + 1"
  let ?R = "(2::int) ^ ?k"
  let ?ri = "invert ?k b"
  let ?q = "(?ri * ?R - 1) sdiv b"
  show "odd (base (ctx_of b))" using assms by (simp add: ctx_of_def)
  have "b < 2 ^ bitLength b" by (rule bitLength_bound)
  also have "\<dots> \<le> ?R" by simp
  finally show "base (ctx_of b) < r (ctx_of b)" by (simp add: ctx_of_def del: power_Suc)
  have d: "b dvd (?ri * ?R - 1)" using assms by (rule invert_dvd)
  then show "base (ctx_of b) dvd (rInv (ctx_of b) * r (ctx_of b) - 1)"
    by (simp add: ctx_of_def del: power_Suc)
  have ex: "?q * b = ?ri * ?R - 1" using d by (rule sdiv_exact)
  have "?R dvd (?q smod ?R - ?q)" by (rule smod_cong)
  then obtain c where c: "?q smod ?R - ?q = ?R * c" by (auto simp: dvd_def)
  have "b * (?R - ?q smod ?R) - 1 = b * ?R - b * (?q smod ?R - ?q) - (?q * b + 1)"
    by (simp add: algebra_simps)
  also have "\<dots> = ?R * (b - b * c - ?ri)"
    unfolding ex c by (simp add: algebra_simps)
  finally have "?R dvd (b * (?R - ?q smod ?R) - 1)" by simp
  then show "r (ctx_of b) dvd (base (ctx_of b) * baseInv (ctx_of b) - 1)"
    by (simp add: ctx_of_def del: power_Suc)
qed

text \<open>
  Claim C1, as amended. For every odd modulus the construction succeeds, and the context
  satisfies: \<open>base\<close> is the odd modulus, \<open>r > base\<close>, \<open>rInv * r\<close> is congruent to 1
  modulo \<open>base\<close>, and \<open>base * baseInv\<close> is congruent to 1 (not to -1) modulo \<open>r\<close>:
  \<open>baseInv\<close> is the modular inverse of \<open>base\<close>, which is what the subtraction in
  \<^verbatim>\<open>mul\<close> needs.
\<close>

theorem reductionContextFor_invariants:
  assumes "odd b"
  shows "\<exists>ctx. reductionContextFor b = Inr ctx \<and> base ctx = b
           \<and> odd (base ctx) \<and> r ctx > base ctx
           \<and> (rInv ctx * r ctx) mod base ctx = 1 mod base ctx
           \<and> (base ctx * baseInv ctx) mod r ctx = 1 mod r ctx"
proof -
  have "reductionContextFor b = Inr (ctx_of b)"
    using assms by (rule reductionContextFor_odd)
  moreover have "base (ctx_of b) = b" by (simp add: ctx_of_def)
  moreover note ctx_of_invariants(1,2) [OF assms]
  moreover have "(rInv (ctx_of b) * r (ctx_of b)) mod base (ctx_of b) = 1 mod base (ctx_of b)"
    using ctx_of_invariants(3) [OF assms] by (simp only: mod_eq_dvd_iff)
  moreover have "(base (ctx_of b) * baseInv (ctx_of b)) mod r (ctx_of b) = 1 mod r (ctx_of b)"
    using ctx_of_invariants(4) [OF assms] by (simp only: mod_eq_dvd_iff)
  ultimately show ?thesis by blast
qed

lemma ctx3: "reductionContextFor 3 = Inr \<lparr>base = 3, shift = 3, r = 8, rInv = 2, baseInv = 3\<rparr>"
  by code_simp

theorem reductionContextFor_invariants_witness:
  "odd (3::int) \<and> reductionContextFor 3 = Inr \<lparr>base = 3, shift = 3, r = 8, rInv = 2, baseInv = 3\<rparr>
   \<and> (2 * 8) mod 3 = (1::int) mod 3 \<and> (3 * 3) mod 8 = (1::int) mod 8"
  using reductionContextFor_invariants [of 3] ctx3 by simp

text \<open>
  The invariants as the specification states them fail at the modulus 3, whose context has
  \<open>r = 8\<close> and \<open>baseInv = 3\<close>: \<open>3 * 3 = 9\<close> is 1 modulo 8, and -1 is 7 modulo 8.
\<close>

theorem spec_context_invariants_counterexample:
  "reductionContextFor 3 = Inr \<lparr>base = 3, shift = 3, r = 8, rInv = 2, baseInv = 3\<rparr>
   \<and> \<not> spec_context_invariants \<lparr>base = 3, shift = 3, r = 8, rInv = 2, baseInv = 3\<rparr>"
  by (simp add: ctx3 spec_context_invariants_def)

section \<open>The arithmetic engine\<close>

lemma mont_ctx_ctx_of:
  assumes "odd b" "0 < b"
  shows "mont_ctx (ctx_of b)"
proof -
  have "0 < rInv (ctx_of b)"
    using invert_range [OF assms] by (simp add: ctx_of_def)
  moreover have "(rInv (ctx_of b) * r (ctx_of b)) mod base (ctx_of b) = 1 mod base (ctx_of b)"
    using ctx_of_invariants(3) [OF assms(1)] by (simp only: mod_eq_dvd_iff)
  moreover have "(base (ctx_of b) * baseInv (ctx_of b)) mod r (ctx_of b) = 1 mod r (ctx_of b)"
    using ctx_of_invariants(4) [OF assms(1)] by (simp only: mod_eq_dvd_iff)
  moreover have "base (ctx_of b) < r (ctx_of b)"
    using ctx_of_invariants(2) [OF assms(1)] .
  moreover have "base (ctx_of b) = b" "0 \<le> shift (ctx_of b)"
    "r (ctx_of b) = 2 ^ nat (shift (ctx_of b))"
    by (simp_all add: ctx_of_def del: power_Suc)
  ultimately show ?thesis
    using assms unfolding mont_ctx_def by simp
qed

lemma mont_ctxD:
  assumes "mont_ctx ctx"
  shows "odd (base ctx)" "0 < base ctx" "0 \<le> shift ctx" "r ctx = 2 ^ nat (shift ctx)"
    "base ctx < r ctx" "0 < rInv ctx"
    "(rInv ctx * r ctx) mod base ctx = 1 mod base ctx"
    "(base ctx * baseInv ctx) mod r ctx = 1 mod r ctx"
    "0 < r ctx"
  using assms unfolding mont_ctx_def by auto

lemma smod_nonneg: "0 \<le> a \<Longrightarrow> 0 < b \<Longrightarrow> a smod b = a mod b" for a b :: int
  by (simp add: smod_int_alt_def sgn_if)

lemma reduce_eq:
  assumes "mont_ctx ctx" "0 \<le> a"
  shows "reduce a ctx = Inr ((a * r ctx) mod base ctx)"
proof -
  have "shl a (shift ctx) = a * r ctx"
    using mont_ctxD(3,4) [OF assms(1)] by (simp add: shl_nonneg)
  moreover have "0 \<le> a * r ctx" using assms(2) mont_ctxD(9) [OF assms(1)] by simp
  ultimately show ?thesis
    using mont_ctxD(2) [OF assms(1)] by (simp add: reduce_def bigint_rem_def smod_nonneg)
qed

lemma invReduce_eq:
  assumes "mont_ctx ctx" "0 \<le> y"
  shows "invReduce y ctx = Inr ((y * rInv ctx) mod base ctx)"
proof -
  have "0 \<le> y * rInv ctx" using assms(2) mont_ctxD(6) [OF assms(1)] by simp
  then show ?thesis
    using mont_ctxD(2) [OF assms(1)] by (simp add: invReduce_def bigint_rem_def smod_nonneg)
qed

lemma reduce_rep:
  assumes "mont_ctx ctx" "0 \<le> a"
  shows "\<exists>y. reduce a ctx = Inr y \<and> mont_rep ctx y a"
  using reduce_eq [OF assms] mont_ctxD(2) [OF assms(1)] by (simp add: mont_rep_def)

lemma invReduce_rep:
  assumes "mont_ctx ctx" "mont_rep ctx y v"
  shows "invReduce y ctx = Inr (v mod base ctx)"
proof -
  let ?m = "base ctx"
  have "(y * rInv ctx) mod ?m = ((v * r ctx) * rInv ctx) mod ?m"
    using assms(2) by (auto simp: mont_rep_def intro: mod_mult_cong)
  also have "\<dots> = (v * (rInv ctx * r ctx)) mod ?m"
    by (simp add: mult.commute mult.left_commute)
  also have "\<dots> = (v * 1) mod ?m"
    by (rule mod_mult_cong) (simp_all add: mont_ctxD(7) [OF assms(1)])
  finally have "(y * rInv ctx) mod ?m = v mod ?m" by simp
  then show ?thesis
    using assms by (simp add: invReduce_eq mont_rep_def)
qed

lemma and_pow2_minus_1: "t AND (2 ^ k - 1) = t mod 2 ^ k" for t :: int
  by (simp flip: mask_eq_exp_minus_1 take_bit_eq_mask add: take_bit_eq_mod)

lemma redc_times_r:
  assumes "mont_ctx ctx"
  shows "redc a b ctx * r ctx
         = a * b - (((a * b) mod r ctx * baseInv ctx) mod r ctx) * base ctx"
proof -
  let ?R = "r ctx" let ?m = "base ctx" let ?t = "a * b"
  let ?M = "((?t mod ?R) * baseInv ctx) mod ?R"
  have R: "?R = 2 ^ nat (shift ctx)" "0 \<le> shift ctx"
    using mont_ctxD(3,4) [OF assms] by simp_all
  have redc: "redc a b ctx = (?t - ?M * ?m) div ?R"
    by (simp add: redc_def Let_def R shr_nonneg and_pow2_minus_1)
  have "(?M * ?m) mod ?R = (((?t mod ?R) * baseInv ctx) * ?m) mod ?R"
    by (rule mod_mult_left_eq)
  also have "\<dots> = ((?t mod ?R) * (?m * baseInv ctx)) mod ?R"
    by (simp add: ac_simps)
  also have "\<dots> = (?t * 1) mod ?R"
    by (rule mod_mult_cong) (simp_all add: mont_ctxD(8) [OF assms])
  finally have "(?M * ?m) mod ?R = ?t mod ?R" by simp
  then have "?R dvd (?t - ?M * ?m)"
    by (simp add: mod_eq_dvd_iff [symmetric])
  then show ?thesis unfolding redc by simp
qed

lemma redc_range:
  assumes "mont_ctx ctx" "0 \<le> a" "a < base ctx" "0 \<le> b" "b < base ctx"
  shows "- base ctx < redc a b ctx \<and> redc a b ctx < base ctx"
proof -
  let ?R = "r ctx" let ?m = "base ctx" let ?t = "a * b"
  let ?M = "((?t mod ?R) * baseInv ctx) mod ?R"
  have Rpos: "0 < ?R" and mR: "?m < ?R" and mpos: "0 < ?m"
    using mont_ctxD(9,5,2) [OF assms(1)] by simp_all
  have eq: "redc a b ctx * ?R = ?t - ?M * ?m" using assms(1) by (rule redc_times_r)
  have M: "0 \<le> ?M" "?M < ?R" using Rpos by simp_all
  have t0: "0 \<le> ?t" using assms by simp
  have "?t \<le> ?m * b" using assms by (simp add: mult_right_mono)
  also have "\<dots> < ?m * ?m" using assms mpos by (simp add: mult_strict_left_mono)
  also have "\<dots> < ?m * ?R" using mR mpos by (simp add: mult_strict_left_mono)
  finally have t1: "?t < ?m * ?R" .
  have "?M * ?m < ?R * ?m" using M mpos by simp
  with t0 have "- (?m * ?R) < redc a b ctx * ?R" unfolding eq by (simp add: mult.commute)
  then have "(- ?m) * ?R < redc a b ctx * ?R" by simp
  then have lo: "- ?m < redc a b ctx" using Rpos by (simp only: mult_less_cancel_right_pos)
  have "0 \<le> ?M * ?m" using M mpos by simp
  with t1 have "redc a b ctx * ?R < ?m * ?R" unfolding eq by linarith
  then have hi: "redc a b ctx < ?m" using Rpos by (simp only: mult_less_cancel_right_pos)
  from lo hi show ?thesis by simp
qed

lemma mul_range:
  assumes "mont_ctx ctx" "0 \<le> a" "a < base ctx" "0 \<le> b" "b < base ctx"
  shows "0 \<le> mul a b ctx \<and> mul a b ctx < base ctx"
  using redc_range [OF assms] assms by (auto simp: mul_def Let_def)

lemma mul_times_r:
  assumes "mont_ctx ctx" "0 \<le> a" "a < base ctx" "0 \<le> b" "b < base ctx"
  shows "(mul a b ctx * r ctx) mod base ctx = (a * b) mod base ctx"
proof (cases "a = 0 \<or> b = 0")
  case True
  then show ?thesis by (auto simp: mul_def)
next
  case False
  let ?R = "r ctx" let ?m = "base ctx"
  have eq: "redc a b ctx * ?R = a * b - (((a * b) mod ?R * baseInv ctx) mod ?R) * ?m"
    using assms(1) by (rule redc_times_r)
  have "(redc a b ctx * ?R) mod ?m = (a * b) mod ?m"
    unfolding eq by (simp add: mod_diff_eq [symmetric])
  moreover have "((redc a b ctx + ?m) * ?R) mod ?m = (redc a b ctx * ?R) mod ?m"
    by (simp add: algebra_simps)
  moreover have "((redc a b ctx - ?m) * ?R) mod ?m = (redc a b ctx * ?R) mod ?m"
  proof -
    have "(redc a b ctx - ?m) * ?R = redc a b ctx * ?R + (- ?R) * ?m"
      by (simp add: algebra_simps)
    then show ?thesis by (simp only: mod_mult_self1)
  qed
  ultimately show ?thesis using False by (auto simp: mul_def Let_def)
qed

lemma mul_rep:
  assumes "mont_ctx ctx" "mont_rep ctx y1 v1" "mont_rep ctx y2 v2"
  shows "mont_rep ctx (mul y1 y2 ctx) (v1 * v2)"
proof -
  let ?R = "r ctx" let ?m = "base ctx" let ?p = "mul y1 y2 ctx"
  have y: "0 \<le> y1" "y1 < ?m" "0 \<le> y2" "y2 < ?m"
    using assms by (simp_all add: mont_rep_def)
  have one: "(rInv ctx * ?R) mod ?m = 1 mod ?m" using assms(1) by (rule mont_ctxD(7))
  have "(?p * ?R) mod ?m = (y1 * y2) mod ?m"
    using assms(1) y by (rule mul_times_r)
  also have "\<dots> = ((v1 * ?R) * (v2 * ?R)) mod ?m"
    using assms(2,3) by (auto simp: mont_rep_def intro: mod_mult_cong)
  finally have "((?p * ?R) * rInv ctx) mod ?m = (((v1 * ?R) * (v2 * ?R)) * rInv ctx) mod ?m"
    by (rule mod_mult_cong) simp
  then have "(?p * (rInv ctx * ?R)) mod ?m = ((v1 * v2 * ?R) * (rInv ctx * ?R)) mod ?m"
    by (simp add: mult.commute mult.left_commute)
  moreover have "(?p * (rInv ctx * ?R)) mod ?m = (?p * 1) mod ?m"
    by (rule mod_mult_cong) (simp_all add: one)
  moreover have "((v1 * v2 * ?R) * (rInv ctx * ?R)) mod ?m = ((v1 * v2 * ?R) * 1) mod ?m"
    by (rule mod_mult_cong) (simp_all add: one)
  ultimately have "?p mod ?m = (v1 * v2 * ?R) mod ?m" by simp
  then show ?thesis
    using mul_range [OF assms(1) y] by (simp add: mont_rep_def)
qed

lemma sqr_rep:
  assumes "mont_ctx ctx" "mont_rep ctx y v"
  shows "\<exists>y'. sqr y ctx = Inr y' \<and> mont_rep ctx y' (v * v)"
proof -
  have rep: "mont_rep ctx (mul y y ctx) (v * v)" using assms by (simp add: mul_rep)
  then have "0 \<le> mul y y ctx" "mul y y ctx < base ctx" by (simp_all add: mont_rep_def)
  then have "sqr y ctx = Inr (mul y y ctx)"
    using mont_ctxD(2) [OF assms(1)] by (simp add: sqr_def bigint_rem_def smod_nonneg)
  with rep show ?thesis by simp
qed

subsection \<open>Exponentiation by squaring\<close>

lemma bit_test: "(e AND shl 1 (int i) \<noteq> 0) = bit e i" for e :: int
  by (simp add: shl_nonneg and_exp_eq_0_iff_not_bit)

lemma power_take_bit_Suc:
  fixes a e :: int
  shows "a ^ nat (take_bit (Suc i) e)
         = a ^ nat (take_bit i e) * (if bit e i then a ^ (2 ^ i) else 1)"
proof -
  have "nat (take_bit (Suc i) e) = nat (take_bit i e) + (if bit e i then 2 ^ i else 0)"
    by (simp add: take_bit_Suc_from_most nat_add_distrib nat_power_eq)
  then show ?thesis by (simp add: power_add)
qed

lemma pow_loop_rep:
  assumes "mont_ctx ctx" "i \<le> expLen"
    and "mont_rep ctx x (a ^ (2 ^ i))"
    and "mont_rep ctx result (a ^ nat (take_bit i e))"
  shows "\<exists>y. pow_loop ctx e expLen i x result = Inr y
             \<and> mont_rep ctx y (a ^ nat (take_bit expLen e))"
  using assms
proof (induction ctx e expLen i x result rule: pow_loop.induct)
  case (1 ctx e expLen i x result)
  show ?case
  proof (cases "i < expLen")
    case False
    with 1(3) have "i = expLen" by simp
    then show ?thesis using 1(5) by (simp add: pow_loop.simps)
  next
    case True
    define result' where
      "result' = (if e AND shl 1 (int i) \<noteq> 0 then mul result x ctx else result)"
    obtain x' where x': "sqr x ctx = Inr x'" "mont_rep ctx x' (a ^ (2 ^ i) * a ^ (2 ^ i))"
      using sqr_rep [OF 1(2) 1(4)] by blast
    have "a ^ (2 ^ i) * a ^ (2 ^ i) = a ^ (2 ^ (i + 1))"
      by (simp add: power_add [symmetric] mult_2)
    with x' have repx: "mont_rep ctx x' (a ^ (2 ^ (i + 1)))" by simp
    have "mont_rep ctx result' (a ^ nat (take_bit i e) * (if bit e i then a ^ (2 ^ i) else 1))"
      using mul_rep [OF 1(2) 1(5) 1(4)] 1(5) by (simp add: result'_def bit_test)
    then have repr: "mont_rep ctx result' (a ^ nat (take_bit (i + 1) e))"
      by (simp add: power_take_bit_Suc)
    have unf: "pow_loop ctx e expLen i x result = pow_loop ctx e expLen (i + 1) x' result'"
      using True x'(1)
      by (subst pow_loop.simps) (simp add: and_then_def result'_def Let_def)
    have "\<exists>y. pow_loop ctx e expLen (i + 1) x' result' = Inr y
             \<and> mont_rep ctx y (a ^ nat (take_bit expLen e))"
      using True 1(2) repx repr
      by (intro 1(1) [OF True result'_def]) simp_all
    then show ?thesis by (simp add: unf)
  qed
qed

lemma take_bit_bitLength:
  assumes "0 \<le> e"
  shows "take_bit (bitLength e) e = e"
  using assms bitLength_bound [of e] by (simp add: take_bit_int_eq_self)

lemma pow_rep:
  assumes "mont_ctx ctx" "0 \<le> e" "mont_rep ctx x a"
  shows "\<exists>y. pow x e ctx = Inr y \<and> mont_rep ctx y (a ^ nat e)"
proof -
  obtain one where one: "reduce 1 ctx = Inr one" "mont_rep ctx one 1"
    using reduce_rep [OF assms(1), of 1] by auto
  have "\<exists>y. pow_loop ctx e (bitLength e) 0 x one = Inr y
          \<and> mont_rep ctx y (a ^ nat (take_bit (bitLength e) e))"
    using assms(1,3) one(2) by (intro pow_loop_rep) simp_all
  then show ?thesis
    using assms(2) one(1) by (simp add: pow_def and_then_def take_bit_bitLength)
qed

lemma pow_zero: "pow x 0 ctx = reduce 1 ctx"
proof (cases "base ctx = 0")
  case True
  then show ?thesis by (simp add: pow_def reduce_def bigint_rem_def and_then_def)
next
  case False
  then obtain one x' where one: "reduce 1 ctx = Inr one" and x': "sqr x ctx = Inr x'"
    by (simp add: reduce_def sqr_def bigint_rem_def)
  have "pow_loop ctx 0 1 0 x one = pow_loop ctx 0 1 1 x' one"
    using x' by (subst pow_loop.simps) (simp add: and_then_def)
  also have "\<dots> = Inr one" by (subst pow_loop.simps) simp
  finally show ?thesis
    using one by (simp add: pow_def bitLength_0 and_then_def)
qed

section \<open>Properties of the engine\<close>

text \<open>
  Claim C6. For every odd modulus \<open>m > 2\<close> and every \<open>x\<close> with \<open>0 \<le> x < m\<close>, the
  context is built, \<^verbatim>\<open>reduce\<close> and \<^verbatim>\<open>invReduce\<close> return, and converting \<open>x\<close> into
  Montgomery form and back gives \<open>x mod m\<close>.
\<close>

theorem montgomery_round_trip:
  assumes "odd m" "2 < m" "0 \<le> x" "x < m"
  shows "\<exists>ctx y. reductionContextFor m = Inr ctx \<and> reduce x ctx = Inr y
           \<and> invReduce y ctx = Inr (x mod m)"
proof -
  have ctx: "reductionContextFor m = Inr (ctx_of m)"
    using assms(1) by (rule reductionContextFor_odd)
  have mc: "mont_ctx (ctx_of m)" using assms(1,2) by (intro mont_ctx_ctx_of) simp_all
  have m: "base (ctx_of m) = m" by (simp add: ctx_of_def)
  obtain y where y: "reduce x (ctx_of m) = Inr y" "mont_rep (ctx_of m) y x"
    using reduce_rep [OF mc assms(3)] by blast
  have "invReduce y (ctx_of m) = Inr (x mod m)"
    using invReduce_rep [OF mc y(2)] by (simp add: m)
  with ctx y(1) show ?thesis by blast
qed

theorem montgomery_round_trip_witness:
  "odd (7::int) \<and> (2::int) < 7 \<and> (0::int) \<le> 3 \<and> (3::int) < 7
   \<and> (\<exists>ctx y. reductionContextFor 7 = Inr ctx \<and> reduce 3 ctx = Inr y
         \<and> invReduce y ctx = Inr 3)"
  using montgomery_round_trip [of 7 3] by simp

text \<open>
  Claim C4. For every odd modulus \<open>m > 2\<close> and \<open>a\<close>, \<open>b\<close> in \<open>[0, m)\<close>, multiplying the
  Montgomery forms and converting back gives \<open>(a * b) mod m\<close>. The uncorrected product
  lies strictly between \<open>-m\<close> and \<open>2 * m\<close>, the value returned by \<^verbatim>\<open>mul\<close> differs from
  it by at most one addition or subtraction of \<open>m\<close>, and it lies in \<open>[0, m)\<close>.
\<close>

theorem montgomery_mul_homomorphism:
  assumes "odd m" "2 < m" "0 \<le> a" "a < m" "0 \<le> b" "b < m"
  shows "\<exists>ctx x y. reductionContextFor m = Inr ctx
           \<and> reduce a ctx = Inr x \<and> reduce b ctx = Inr y
           \<and> invReduce (mul x y ctx) ctx = Inr ((a * b) mod m)
           \<and> - m < redc x y ctx \<and> redc x y ctx < 2 * m
           \<and> mul x y ctx \<in> {redc x y ctx, redc x y ctx + m, redc x y ctx - m}
           \<and> 0 \<le> mul x y ctx \<and> mul x y ctx < m"
proof -
  let ?c = "ctx_of m"
  have ctx: "reductionContextFor m = Inr ?c"
    using assms(1) by (rule reductionContextFor_odd)
  have mc: "mont_ctx ?c" using assms(1,2) by (intro mont_ctx_ctx_of) simp_all
  have m: "base ?c = m" by (simp add: ctx_of_def)
  obtain x where x: "reduce a ?c = Inr x" "mont_rep ?c x a"
    using reduce_rep [OF mc assms(3)] by blast
  obtain y where y: "reduce b ?c = Inr y" "mont_rep ?c y b"
    using reduce_rep [OF mc assms(5)] by blast
  have xy: "0 \<le> x" "x < base ?c" "0 \<le> y" "y < base ?c"
    using x(2) y(2) by (simp_all add: mont_rep_def)
  have inv: "invReduce (mul x y ?c) ?c = Inr ((a * b) mod m)"
    using invReduce_rep [OF mc mul_rep [OF mc x(2) y(2)] ] by (simp add: m)
  have rng: "- m < redc x y ?c" "redc x y ?c < m"
    using redc_range [OF mc xy] by (simp_all add: m)
  then have rng2: "redc x y ?c < 2 * m" using assms(2) by linarith
  have corr: "mul x y ?c \<in> {redc x y ?c, redc x y ?c + m, redc x y ?c - m}"
  proof (cases "x = 0 \<or> y = 0")
    case True
    then have "redc x y ?c = 0"
      using mont_ctxD(3) [OF mc] by (auto simp: redc_def shr_nonneg)
    with True show ?thesis by (auto simp: mul_def)
  next
    case False
    then show ?thesis by (simp add: mul_def Let_def m)
  qed
  have "0 \<le> mul x y ?c" "mul x y ?c < m"
    using mul_range [OF mc xy] by (simp_all add: m)
  with ctx x(1) y(1) inv rng(1) rng2 corr show ?thesis by blast
qed

theorem montgomery_mul_homomorphism_witness:
  "odd (7::int) \<and> (2::int) < 7 \<and> (0::int) \<le> 3 \<and> (3::int) < 7 \<and> (0::int) \<le> 5 \<and> (5::int) < 7
   \<and> (\<exists>ctx x y. reductionContextFor 7 = Inr ctx
           \<and> reduce 3 ctx = Inr x \<and> reduce 5 ctx = Inr y
           \<and> invReduce (mul x y ctx) ctx = Inr 1
           \<and> - 7 < redc x y ctx \<and> redc x y ctx < 14
           \<and> mul x y ctx \<in> {redc x y ctx, redc x y ctx + 7, redc x y ctx - 7}
           \<and> 0 \<le> mul x y ctx \<and> mul x y ctx < 7)"
  using montgomery_mul_homomorphism [of 7 3 5] by simp

text \<open>
  Claim C5. For every odd modulus \<open>m > 2\<close>, every \<open>a\<close> in \<open>[0, m)\<close> and every exponent
  \<open>e \<ge> 0\<close>, \<^verbatim>\<open>pow\<close> on the Montgomery form of \<open>a\<close> returns, and converting its result back
  gives \<open>a ^ e mod m\<close>. For the exponent 0, \<^verbatim>\<open>pow\<close> is \<^verbatim>\<open>reduce(1)\<close> whatever its
  first argument and its context are.
\<close>

theorem montgomery_pow_correct:
  "(odd m \<and> 2 < m \<and> 0 \<le> a \<and> a < m \<and> 0 \<le> e \<longrightarrow>
      (\<exists>ctx x y. reductionContextFor m = Inr ctx \<and> reduce a ctx = Inr x
           \<and> pow x e ctx = Inr y \<and> invReduce y ctx = Inr (a ^ nat e mod m)))
   \<and> pow x' 0 ctx' = reduce 1 ctx'"
proof (intro conjI impI)
  assume asm: "odd m \<and> 2 < m \<and> 0 \<le> a \<and> a < m \<and> 0 \<le> e"
  let ?c = "ctx_of m"
  have ctx: "reductionContextFor m = Inr ?c"
    using asm by (intro reductionContextFor_odd) simp
  have mc: "mont_ctx ?c" using asm by (intro mont_ctx_ctx_of) simp_all
  have m: "base ?c = m" by (simp add: ctx_of_def)
  obtain x where x: "reduce a ?c = Inr x" "mont_rep ?c x a"
    using reduce_rep [OF mc, of a] asm by blast
  obtain y where y: "pow x e ?c = Inr y" "mont_rep ?c y (a ^ nat e)"
    using pow_rep [OF mc _ x(2), of e] asm by blast
  have "invReduce y ?c = Inr (a ^ nat e mod m)"
    using invReduce_rep [OF mc y(2)] by (simp add: m)
  with ctx x(1) y(1)
  show "\<exists>ctx x y. reductionContextFor m = Inr ctx \<and> reduce a ctx = Inr x
           \<and> pow x e ctx = Inr y \<and> invReduce y ctx = Inr (a ^ nat e mod m)"
    by blast
next
  show "pow x' 0 ctx' = reduce 1 ctx'" by (rule pow_zero)
qed

theorem montgomery_pow_correct_witness:
  "odd (7::int) \<and> (2::int) < 7 \<and> (0::int) \<le> 3 \<and> (3::int) < 7 \<and> (0::int) \<le> 5
   \<and> (\<exists>ctx x y. reductionContextFor 7 = Inr ctx \<and> reduce 3 ctx = Inr x
           \<and> pow x 5 ctx = Inr y \<and> invReduce y ctx = Inr 5)
   \<and> pow 4 0 \<lparr>base = 7, shift = 4, r = 16, rInv = 4, baseInv = 7\<rparr>
       = reduce 1 \<lparr>base = 7, shift = 4, r = 16, rInv = 4, baseInv = 7\<rparr>"
  using montgomery_pow_correct [of 7 3 5 4 "\<lparr>base = 7, shift = 4, r = 16, rInv = 4, baseInv = 7\<rparr>"]
  by simp

section \<open>The binary gcd\<close>

lemma shr_1: "shr a 1 = a div 2"
  by (simp add: shr_def drop_bit_eq_div)

lemma gcd_even_odd:
  fixes a b :: int
  assumes "odd b"
  shows "gcd (2 * a) b = gcd a b"
  using assms by (simp add: gcd_mult_left_left_cancel)

lemma strip_twos_pos:
  assumes "0 < a"
  shows "\<exists>a'. strip_twos a = Some a' \<and> odd a' \<and> 0 < a' \<and> a' \<le> a
            \<and> (odd a \<longrightarrow> a' = a) \<and> (\<forall>b. odd b \<longrightarrow> gcd a' b = gcd a b)"
  using assms
proof (induction "nat a" arbitrary: a rule: less_induct)
  case less
  show ?case
  proof (cases "even a")
    case False
    then have "strip_twos a = Some a"
      by (subst strip_twos.simps) (simp add: and_1_eq_0_iff)
    with False less.prems show ?thesis by simp
  next
    case True
    then obtain k where k: "a = 2 * k" by (auto elim: evenE)
    with less.prems have kpos: "0 < k" by simp
    have unf: "strip_twos a = strip_twos k"
      using True by (subst strip_twos.simps) (simp add: and_1_eq_0_iff shr_1 k)
    have "nat k < nat a" using kpos k by simp
    from less.hyps [OF this kpos] obtain a' where
      a': "strip_twos k = Some a'" "odd a'" "0 < a'" "a' \<le> k"
        "\<forall>b. odd b \<longrightarrow> gcd a' b = gcd k b"
      by blast
    have "\<forall>b. odd b \<longrightarrow> gcd a' b = gcd a b"
      using a'(5) by (simp add: k gcd_even_odd)
    with a' unf True kpos k show ?thesis by simp
  qed
qed

lemma strip_shared_pos:
  assumes "0 < a" "0 < b"
  shows "\<exists>a' b' k. strip_shared a b s = Some (a', b', s + int k) \<and> 0 < a' \<and> 0 < b'
            \<and> (odd a' \<or> odd b') \<and> a = a' * 2 ^ k \<and> b = b' * 2 ^ k"
  using assms
proof (induction "nat a" arbitrary: a b s rule: less_induct)
  case less
  show ?case
  proof (cases "even a \<and> even b")
    case False
    then have "strip_shared a b s = Some (a, b, s + int 0)"
      by (subst strip_shared.simps) (auto simp: or_eq_0_iff and_1_eq_0_iff)
    moreover have "a = a * 2 ^ 0" "b = b * 2 ^ 0" by simp_all
    ultimately show ?thesis using False less.prems by blast
  next
    case True
    then obtain k l where kl: "a = 2 * k" "b = 2 * l" by (auto elim!: evenE)
    with less.prems have pos: "0 < k" "0 < l" by simp_all
    have unf: "strip_shared a b s = strip_shared k l (s + 1)"
      using True by (subst strip_shared.simps) (simp add: or_eq_0_iff and_1_eq_0_iff shr_1 kl)
    have "nat k < nat a" using pos kl by simp
    from less.hyps [OF this pos, of "s + 1"] obtain a' b' j where
      j: "strip_shared k l (s + 1) = Some (a', b', s + 1 + int j)" "0 < a'" "0 < b'"
        "odd a' \<or> odd b'" "k = a' * 2 ^ j" "l = b' * 2 ^ j"
      by blast
    have "strip_shared a b s = Some (a', b', s + int (Suc j))"
      using unf j(1) by simp
    moreover have "a = a' * 2 ^ Suc j" "b = b' * 2 ^ Suc j"
      using kl j(5,6) by simp_all
    ultimately show ?thesis using j(2,3,4) by blast
  qed
qed

lemma gcd_loop_pos:
  assumes "0 < a" "0 < b" "odd a \<or> odd b"
  shows "gcd_loop a b = Some (gcd a b)"
  using assms
proof (induction "nat (a + b)" arbitrary: a b rule: less_induct)
  case less
  show ?case
  proof (cases "a \<noteq> b \<and> b > 1")
    case False
    then have "gcd_loop a b = Some b" by (subst gcd_loop.simps) auto
    moreover have "gcd a b = b"
    proof (cases "a = b")
      case True
      with less.prems show ?thesis by simp
    next
      case False
      with \<open>\<not> (a \<noteq> b \<and> b > 1)\<close> less.prems have "b = 1" by simp
      then show ?thesis by simp
    qed
    ultimately show ?thesis by simp
  next
    case True
    obtain a1 where a1: "strip_twos a = Some a1" "odd a1" "0 < a1" "a1 \<le> a"
      "odd a \<longrightarrow> a1 = a" "\<forall>c. odd c \<longrightarrow> gcd a1 c = gcd a c"
      using strip_twos_pos [OF less.prems(1)] by blast
    obtain b1 where b1: "strip_twos b = Some b1" "odd b1" "0 < b1" "b1 \<le> b"
      "odd b \<longrightarrow> b1 = b" "\<forall>c. odd c \<longrightarrow> gcd b1 c = gcd b c"
      using strip_twos_pos [OF less.prems(2)] by blast
    have g: "gcd a1 b1 = gcd a b"
    proof (cases "odd a")
      case True
      with a1(5) have "a1 = a" by simp
      moreover have "gcd b1 a = gcd b a" using b1(6) True by simp
      ultimately show ?thesis by (simp add: gcd.commute)
    next
      case False
      with less.prems(3) have "odd b" by simp
      with b1(5) have "b1 = b" by simp
      moreover have "gcd a1 b = gcd a b" using a1(6) \<open>odd b\<close> by simp
      ultimately show ?thesis by simp
    qed
    have unf: "gcd_loop a b =
        (if b1 > a1 then gcd_loop (b1 - a1) a1
         else if a1 = b1 then Some b1 else gcd_loop (a1 - b1) b1)"
      using True a1(1) b1(1) by (subst gcd_loop.simps) simp
    consider "a1 < b1" | "a1 = b1" | "b1 < a1" by linarith
    then show ?thesis
    proof cases
      case 1
      have "b1 - a1 + a1 < a + b" "0 < b1" using b1(3,4) less.prems(1) by linarith+
      then have "nat (b1 - a1 + a1) < nat (a + b)" by linarith
      moreover have "0 < b1 - a1" using 1 by simp
      moreover note a1(3)
      moreover have "odd (b1 - a1) \<or> odd a1" using a1(2) by simp
      ultimately have "gcd_loop (b1 - a1) a1 = Some (gcd (b1 - a1) a1)"
        by (rule less.hyps)
      moreover have "gcd (b1 - a1) a1 = gcd a1 b1"
        using gcd_diff1 [of b1 a1] by (simp add: gcd.commute)
      ultimately show ?thesis using 1 unf g by simp
    next
      case 2
      then have "gcd a1 b1 = b1" using b1(3) by simp
      with 2 unf g show ?thesis by simp
    next
      case 3
      have "a1 - b1 + b1 < a + b" "0 < a1" using a1(3,4) less.prems(2) by linarith+
      then have "nat (a1 - b1 + b1) < nat (a + b)" by linarith
      moreover have "0 < a1 - b1" using 3 by simp
      moreover note b1(3)
      moreover have "odd (a1 - b1) \<or> odd b1" using b1(2) by simp
      ultimately have "gcd_loop (a1 - b1) b1 = Some (gcd (a1 - b1) b1)"
        by (rule less.hyps)
      moreover have "gcd (a1 - b1) b1 = gcd a1 b1"
        by (rule gcd_diff1)
      ultimately show ?thesis using 3 unf g by simp
    qed
  qed
qed

lemma gcd_bigint_eq_gcd:
  assumes "0 \<le> a" "0 \<le> b"
  shows "gcd_bigint a b = Some (gcd a b)"
proof -
  consider "a = b" | "a \<noteq> b" "a = 0" | "a \<noteq> b" "a \<noteq> 0" "b = 0" | "a \<noteq> b" "0 < a" "0 < b"
    using assms by linarith
  then show ?thesis
  proof cases
    case 1
    then show ?thesis using assms by (simp add: gcd_bigint_def)
  next
    case 2
    then show ?thesis using assms by (simp add: gcd_bigint_def)
  next
    case 3
    then show ?thesis using assms by (simp add: gcd_bigint_def)
  next
    case 4
    obtain a' b' k where
      s: "strip_shared a b 0 = Some (a', b', 0 + int k)" "0 < a'" "0 < b'"
        "odd a' \<or> odd b'" "a = a' * 2 ^ k" "b = b' * 2 ^ k"
      using strip_shared_pos [OF 4(2,3), of 0] by blast
    have l: "gcd_loop a' b' = Some (gcd a' b')"
      using s(2,3,4) by (rule gcd_loop_pos)
    have "gcd a b = gcd (2 ^ k * a') (2 ^ k * b')"
      by (simp add: s(5,6) mult.commute)
    also have "\<dots> = 2 ^ k * gcd a' b'"
      by (simp add: gcd_mult_distrib_int [symmetric])
    finally have "shl (gcd a' b') (int k) = gcd a b"
      by (simp add: shl_nonneg mult.commute)
    then show ?thesis
      using 4 s(1) l by (simp add: gcd_bigint_def)
  qed
qed

lemma euclid_eq_gcd:
  assumes "0 \<le> a" "0 \<le> b"
  shows "euclid a b = gcd a b"
  using assms
proof (induction a b rule: euclid.induct)
  case (1 a b)
  show ?case
  proof (cases "b = 0")
    case True
    then show ?thesis using 1(2) by (subst euclid.simps) simp
  next
    case False
    with 1(3) have "0 < b" by simp
    then have "0 \<le> a mod b" by simp
    with 1(1) [OF False 1(3)] have "euclid b (a mod b) = gcd b (a mod b)" by simp
    also have "\<dots> = gcd a b" by (rule gcd_red_int [symmetric])
    finally show ?thesis using False by (subst euclid.simps) simp
  qed
qed

text \<open>
  Claim C10. On non-negative arguments \<^verbatim>\<open>gcd\<close> returns, is symmetric, and satisfies
  \<open>gcd(a, 0) = a\<close> and \<open>gcd(a, a) = a\<close>; on positive arguments its result divides both,
  no common divisor is greater, and it is the value the Euclidean algorithm computes.
\<close>

theorem gcd_laws:
  assumes "0 \<le> a" "0 \<le> b"
  shows "gcd_bigint a b = gcd_bigint b a
         \<and> gcd_bigint a 0 = Some a
         \<and> gcd_bigint a a = Some a
         \<and> (0 < a \<and> 0 < b \<longrightarrow>
              (\<exists>g. gcd_bigint a b = Some g \<and> g dvd a \<and> g dvd b
                   \<and> (\<forall>d. d dvd a \<and> d dvd b \<longrightarrow> d \<le> g)
                   \<and> g = euclid a b))"
proof -
  have ab: "gcd_bigint a b = Some (gcd a b)" using assms by (rule gcd_bigint_eq_gcd)
  have "gcd_bigint b a = Some (gcd b a)" using assms(2,1) by (rule gcd_bigint_eq_gcd)
  with ab have comm: "gcd_bigint a b = gcd_bigint b a" by (simp add: gcd.commute)
  have zero: "gcd_bigint a 0 = Some a" by (simp add: gcd_bigint_def)
  have same: "gcd_bigint a a = Some a" by (simp add: gcd_bigint_def)
  have great: "d \<le> gcd a b" if "0 < a" "d dvd a \<and> d dvd b" for d
  proof -
    from that have "d dvd gcd a b" by simp
    moreover have "0 < gcd a b" using that(1) by (simp add: gcd_pos_int)
    ultimately show ?thesis by (rule zdvd_imp_le)
  qed
  have "euclid a b = gcd a b" using assms by (rule euclid_eq_gcd)
  with ab great have
    "0 < a \<and> 0 < b \<longrightarrow>
       (\<exists>g. gcd_bigint a b = Some g \<and> g dvd a \<and> g dvd b
            \<and> (\<forall>d. d dvd a \<and> d dvd b \<longrightarrow> d \<le> g) \<and> g = euclid a b)"
    by auto
  with comm zero same show ?thesis by blast
qed

theorem gcd_laws_witness:
  "gcd_bigint 48 180 = gcd_bigint 180 48
   \<and> gcd_bigint 48 0 = Some 48
   \<and> gcd_bigint 48 48 = Some 48
   \<and> (\<exists>g. gcd_bigint 48 180 = Some g \<and> g dvd 48 \<and> g dvd 180
            \<and> (\<forall>d. d dvd 48 \<and> d dvd 180 \<longrightarrow> d \<le> g) \<and> g = euclid 48 180)"
proof -
  have h: "(0::int) \<le> 48" "(0::int) \<le> 180" "(0::int) < 48 \<and> (0::int) < 180"
    by simp_all
  from gcd_laws [OF h(1,2)] h(3) show ?thesis by blast
qed

section \<open>The Miller-Rabin tester: selection of bases\<close>

lemma sample_base_Some:
  assumes "sample_base rng nBits nSub call = Some y"
  shows "2 < fst y \<and> fst y < nSub \<and> call < snd y"
proof (rule sample_base.raw_induct
    [where P = "\<lambda>rng nBits nSub call y. 2 < fst y \<and> fst y < nSub \<and> call < snd y", OF _ assms])
  fix f :: "(nat \<Rightarrow> nat \<Rightarrow> bool) \<Rightarrow> nat \<Rightarrow> int \<Rightarrow> nat \<Rightarrow> (int \<times> nat) option"
  fix rng nBits nSub call y
  assume IH: "\<And>rng nBits nSub call y. f rng nBits nSub call = Some y
                \<Longrightarrow> 2 < fst y \<and> fst y < nSub \<and> call < snd y"
    and eq: "(let b = bn_of_bits (getRandomBitString rng call nBits)
              in if \<not> 2 < b \<or> \<not> b < nSub then f rng nBits nSub (call + 1)
                 else Some (b, call + 1)) = Some y"
  show "2 < fst y \<and> fst y < nSub \<and> call < snd y"
  proof (cases "\<not> 2 < bn_of_bits (getRandomBitString rng call nBits)
                \<or> \<not> bn_of_bits (getRandomBitString rng call nBits) < nSub")
    case True
    with eq have "f rng nBits nSub (call + 1) = Some y" by (simp add: Let_def)
    from IH [OF this] show ?thesis by simp
  next
    case False
    with eq have "y = (bn_of_bits (getRandomBitString rng call nBits), call + 1)"
      by (auto simp: Let_def)
    with False show ?thesis by simp
  qed
qed

lemma sample_base_empty_range:
  assumes "nSub \<le> 3"
  shows "sample_base rng nBits nSub call = None"
proof (cases "sample_base rng nBits nSub call")
  case None
  then show ?thesis .
next
  case (Some y)
  from sample_base_Some [OF this] assms show ?thesis by linarith
qed

lemma bn_bits_bound: "k < 2 ^ bn_bits k"
proof (induction k rule: bn_bits.induct)
  case (1 k)
  show ?case
  proof (cases "k = 0")
    case True
    then show ?thesis by simp
  next
    case False
    with 1 have "k div 2 < 2 ^ bn_bits (k div 2)" by simp
    then have "k < 2 * 2 ^ bn_bits (k div 2)" by linarith
    then show ?thesis using False by (subst bn_bits.simps) simp
  qed
qed

lemma bn_bitLength_bound:
  assumes "0 \<le> v"
  shows "v < 2 ^ bn_bitLength v"
proof -
  have "nat v < 2 ^ bn_bits (nat v)" by (rule bn_bits_bound)
  then have "int (nat v) < int (2 ^ bn_bits (nat v))" by (simp only: of_nat_less_iff)
  with assms show ?thesis by (simp add: bn_bitLength_def)
qed

lemma foldl_bits:
  "foldl (\<lambda>acc b. 2 * acc + (if b then 1 else 0)) a (map (\<lambda>i. bit b (k - 1 - i)) [0..<k])
   = a * 2 ^ k + take_bit k b" for a b :: int
proof (induction k arbitrary: a)
  case 0
  then show ?case by simp
next
  case (Suc k)
  let ?f = "\<lambda>acc b. 2 * acc + (if b then 1 else (0::int))"
  have list: "map (\<lambda>i. bit b (Suc k - 1 - i)) [0..<Suc k]
        = bit b k # map (\<lambda>i. bit b (k - 1 - i)) [0..<k]"
    by (simp add: upt_conv_Cons map_Suc_upt [symmetric] del: upt_Suc)
  have "foldl ?f a (bit b k # map (\<lambda>i. bit b (k - 1 - i)) [0..<k])
        = foldl ?f (2 * a + (if bit b k then 1 else 0)) (map (\<lambda>i. bit b (k - 1 - i)) [0..<k])"
    by (simp only: foldl.simps)
  also have "\<dots> = (2 * a + (if bit b k then 1 else 0)) * 2 ^ k + take_bit k b"
    by (rule Suc.IH)
  also have "\<dots> = a * 2 ^ Suc k + take_bit (Suc k) b"
    by (simp add: take_bit_Suc_from_most algebra_simps)
  finally show ?case unfolding list .
qed

lemma bn_of_bits_digits:
  assumes "0 \<le> b" "b < 2 ^ k"
  shows "bn_of_bits (getRandomBitString (\<lambda>call i. bit b (k - 1 - i)) call k) = b"
  using assms foldl_bits [of 0 b k]
  by (simp add: bn_of_bits_def getRandomBitString_def take_bit_int_eq_self)

lemma sample_base_reachable:
  assumes "3 \<le> b" "b \<le> v - 2"
  shows "sample_base (\<lambda>call i. bit b (bn_bitLength v - 1 - i)) (bn_bitLength v) (v - 1) call
         = Some (b, call + 1)"
proof -
  have "v < 2 ^ bn_bitLength v" using assms by (intro bn_bitLength_bound) simp
  with assms have "0 \<le> b" "b < 2 ^ bn_bitLength v" by simp_all
  then have "bn_of_bits (getRandomBitString (\<lambda>call i. bit b (bn_bitLength v - 1 - i))
               call (bn_bitLength v)) = b"
    by (rule bn_of_bits_digits)
  then show ?thesis
    using assms by (subst sample_base.simps) (simp add: Let_def)
qed

section \<open>The Miller-Rabin tester: rounds\<close>

lemma sample_seq_length:
  "sample_seq rng nBits nSub call k = Some (bs, c) \<Longrightarrow> length bs = k"
  by (induction k arbitrary: call bs c) (auto split: option.splits)

lemma witness_found_0:
  "witness_found rng v nBits nSub s d call 0 b c
   \<longleftrightarrow> sample_base rng nBits nSub call = Some (b, c) \<and> test_round v nSub s d b = Composite"
  by (auto simp: witness_found_def split: option.splits)

lemma witness_found_Suc:
  "witness_found rng v nBits nSub s d call (Suc k) b c
   \<longleftrightarrow> (\<exists>b0 call'. sample_base rng nBits nSub call = Some (b0, call')
          \<and> test_round v nSub s d b0 = Passed
          \<and> witness_found rng v nBits nSub s d call' k b c)"
proof (cases "sample_base rng nBits nSub call")
  case None
  then show ?thesis by (simp add: witness_found_def)
next
  case (Some y)
  obtain b0 call' where y: "y = (b0, call')" by (cases y)
  show ?thesis
  proof (cases "sample_seq rng nBits nSub call' (Suc k)")
    case None
    with Some y show ?thesis by (simp add: witness_found_def)
  next
    case inner: (Some z)
    obtain bs c' where z: "z = (bs, c')" by (cases z)
    have "length bs = Suc k" using inner z by (simp add: sample_seq_length)
    then have ne: "bs \<noteq> []" by auto
    have "sample_seq rng nBits nSub call (Suc (Suc k)) = Some (b0 # bs, c')"
      using Some y inner z by simp
    with Some y inner z ne show ?thesis
      by (auto simp: witness_found_def)
  qed
qed

lemma rounds_loop_sound:
  assumes "rounds_loop rng v nBits nSub s d numRounds round call = Some ((pp, w), c)"
  shows "(pp \<longleftrightarrow> w = None)
         \<and> (\<forall>b. w = Some b \<longrightarrow>
               (\<exists>k. round + int k < numRounds \<and> witness_found rng v nBits nSub s d call k b c))"
  using assms
proof (induction rng v nBits nSub s d numRounds round call rule: rounds_loop.induct)
  case (1 rng v nBits nSub s d numRounds round call)
  show ?case
  proof (cases "round < numRounds")
    case False
    with 1(2) show ?thesis by (subst (asm) rounds_loop.simps) auto
  next
    case True
    with 1(2) obtain b0 call' where sb: "sample_base rng nBits nSub call = Some (b0, call')"
      by (subst (asm) rounds_loop.simps) (auto split: option.splits)
    show ?thesis
    proof (cases "test_round v nSub s d b0")
      case Composite
      with 1(2) True sb have res: "pp = False" "w = Some b0" "c = call'"
        by (subst (asm) rounds_loop.simps, simp)+
      have "witness_found rng v nBits nSub s d call 0 b0 call'"
        using sb Composite by (simp add: witness_found_0)
      moreover have "round + int 0 < numRounds" using True by simp
      ultimately show ?thesis using res by blast
    next
      case Passed
      with 1(2) True sb have
        rec: "rounds_loop rng v nBits nSub s d numRounds (round + 1) call' = Some ((pp, w), c)"
        by (subst (asm) rounds_loop.simps) simp
      from 1(1) [OF True sb refl Passed rec]
      have IH: "(pp \<longleftrightarrow> w = None)"
        "\<forall>b. w = Some b \<longrightarrow> (\<exists>k. round + 1 + int k < numRounds
                \<and> witness_found rng v nBits nSub s d call' k b c)"
        by simp_all
      have "\<exists>k. round + int k < numRounds \<and> witness_found rng v nBits nSub s d call k b c"
        if "w = Some b" for b
      proof -
        from IH(2) that obtain k where
          k: "round + 1 + int k < numRounds" "witness_found rng v nBits nSub s d call' k b c"
          by blast
        have "witness_found rng v nBits nSub s d call (Suc k) b c"
          using sb Passed k(2) by (simp add: witness_found_Suc)
        moreover have "round + int (Suc k) < numRounds" using k(1) by simp
        ultimately show ?thesis by blast
      qed
      with IH(1) show ?thesis by blast
    qed
  qed
qed

lemma rounds_loop_complete:
  assumes "witness_found rng v nBits nSub s d call k b c" "round + int k < numRounds"
  shows "rounds_loop rng v nBits nSub s d numRounds round call = Some ((False, Some b), c)"
  using assms
proof (induction k arbitrary: call round)
  case 0
  then have "sample_base rng nBits nSub call = Some (b, c)" "test_round v nSub s d b = Composite"
    "round < numRounds"
    by (simp_all add: witness_found_0)
  then show ?case by (subst rounds_loop.simps) simp
next
  case (Suc k)
  from Suc.prems(1) obtain b0 call' where
    st: "sample_base rng nBits nSub call = Some (b0, call')" "test_round v nSub s d b0 = Passed"
      "witness_found rng v nBits nSub s d call' k b c"
    by (auto simp: witness_found_Suc)
  have "round + 1 + int k < numRounds" using Suc.prems(2) by simp
  from Suc.IH [OF st(3) this]
  have "rounds_loop rng v nBits nSub s d numRounds (round + 1) call' = Some ((False, Some b), c)" .
  moreover have "round < numRounds" using Suc.prems(2) by simp
  ultimately show ?case using st(1,2) by (subst rounds_loop.simps) simp
qed

section \<open>Properties of the tester\<close>

subsection \<open>The candidate 4\<close>

text \<open>
  Claim C2. The specification wants the candidate 4 reported composite. In the code no
  base satisfies \<open>2 < base < 3\<close>, so the selection loop of the first round draws for
  ever: for every random source and every positive number of rounds the promise is never
  settled.
\<close>

theorem testPrimality_four_never_resolves:
  assumes "BN inp = Inr (Num 4)" "0 < rounds_of nr"
  shows "testPrimality BN rng inp nr = None"
proof -
  have "sample_base rng (bn_bitLength 4) 3 0 = None"
    by (rule sample_base_empty_range) simp
  then have "rounds_loop rng 4 (bn_bitLength 4) 3 (bn_zeroBits 3) (3 sdiv 2 ^ bn_zeroBits 3)
               (rounds_of nr) 0 0 = None"
    using assms(2) by (subst rounds_loop.simps) simp
  then show ?thesis
    using assms(1) by (simp add: testPrimality_def Let_def)
qed

theorem testPrimality_four_never_resolves_witness:
  "testPrimality (\<lambda>i. Inr (Num i)) (rng_of []) (4::int) (Some 1) = None"
  using testPrimality_four_never_resolves [of "\<lambda>i. Inr (Num i)" 4 "Some 1" "rng_of []"]
  by (simp add: rounds_of_def)

subsection \<open>The range of the bases\<close>

text \<open>
  Claim C3. The specification, and the comment of the code, want every base of
  \<open>[2, n - 2]\<close> selectable. The loop keeps a candidate only when it is greater than 2: a
  selected base lies in \<open>[3, n - 2]\<close> and is never 2, and every integer of
  \<open>[3, n - 2]\<close> is selected by some random source at its first draw.
\<close>

theorem sampled_base_excludes_two:
  "(sample_base rng nBits nSub call = Some (b, c) \<longrightarrow> 3 \<le> b \<and> b \<le> nSub - 1 \<and> b \<noteq> 2)
   \<and> (3 \<le> b' \<and> b' \<le> v - 2 \<longrightarrow>
        (\<exists>rng'. sample_base rng' (bn_bitLength v) (v - 1) call' = Some (b', call' + 1)))"
proof -
  have "3 \<le> b \<and> b \<le> nSub - 1 \<and> b \<noteq> 2"
    if "sample_base rng nBits nSub call = Some (b, c)"
    using sample_base_Some [OF that] by simp
  moreover have "\<exists>rng'. sample_base rng' (bn_bitLength v) (v - 1) call' = Some (b', call' + 1)"
    if "3 \<le> b' \<and> b' \<le> v - 2"
  proof -
    from that have
      "sample_base (\<lambda>call i. bit b' (bn_bitLength v - 1 - i)) (bn_bitLength v) (v - 1) call'
         = Some (b', call' + 1)"
      by (intro sample_base_reachable) simp_all
    then show ?thesis by blast
  qed
  ultimately show ?thesis by blast
qed

lemma sample_seven:
  "sample_base (rng_of [ [False, True, False], [False, True, True] ]) 3 6 0 = Some (3, 2)"
  by code_simp

theorem sampled_base_excludes_two_witness:
  "bn_of_bits (getRandomBitString (rng_of [ [False, True, False], [False, True, True] ]) 0 3) = 2
   \<and> sample_base (rng_of [ [False, True, False], [False, True, True] ]) 3 6 0 = Some (3, 2)
   \<and> (3::int) \<le> 3 \<and> (3::int) \<le> 6 - 1 \<and> (3::int) \<noteq> 2
   \<and> (\<exists>rng'. sample_base rng' (bn_bitLength 7) (7 - 1) 0 = Some (5, 0 + 1))"
proof -
  have "bn_of_bits (getRandomBitString (rng_of [ [False, True, False], [False, True, True] ]) 0 3) = 2"
    by code_simp
  moreover have "\<exists>rng'. sample_base rng' (bn_bitLength 7) (7 - 1) 0 = Some (5, 0 + 1)"
    using sampled_base_excludes_two [of _ _ _ _ _ _ 5 7 0] by simp
  ultimately show ?thesis
    using sample_seven
      sampled_base_excludes_two [of "rng_of [ [False, True, False], [False, True, True] ]" 3 6 0 3 2]
    by simp
qed

subsection \<open>Rejection\<close>

text \<open>
  Claim C8, as amended. The promise is rejected whenever the \<^verbatim>\<open>BN\<close> constructor throws on
  the input, and whenever the first use of the object it returns throws, each time with
  the error thrown and before any random draw. An input that the constructor reads as a
  negative integer is not rejected: like 0 and 1 it resolves with
  \<open>probablePrime = false\<close> and no witness.
\<close>

theorem testPrimality_rejects_when_BN_throws:
  "(BN inp = Inl e \<longrightarrow> testPrimality BN rng inp nr = Some (Rejected e, 0))
   \<and> (BN inp = Inr (Unusable e) \<longrightarrow> testPrimality BN rng inp nr = Some (Rejected e, 0))
   \<and> (BN inp = Inr (Num v) \<and> v < 2 \<longrightarrow>
        testPrimality BN rng inp nr
          = Some (Resolved \<lparr>n = v, probablePrime = False, witness = None\<rparr>, 0))"
  by (simp add: testPrimality_def Let_def)

theorem testPrimality_rejects_when_BN_throws_witness:
  "testPrimality sample_BN (rng_of []) ''abc'' (Some 2)
     = Some (Rejected (Error ''Invalid character''), 0)
   \<and> testPrimality sample_BN (rng_of []) ''null'' (Some 2)
     = Some (Rejected (TypeError ''Cannot read properties of null''), 0)
   \<and> testPrimality sample_BN (rng_of []) ''-5'' (Some 2)
     = Some (Resolved \<lparr>n = - 5, probablePrime = False, witness = None\<rparr>, 0)"
  using
    testPrimality_rejects_when_BN_throws
      [of sample_BN "''abc''" "Error ''Invalid character''" "rng_of []" "Some 2" 0]
    testPrimality_rejects_when_BN_throws
      [of sample_BN "''null''" "TypeError ''Cannot read properties of null''" "rng_of []"
          "Some 2" 0]
    testPrimality_rejects_when_BN_throws
      [of sample_BN "''-5''" "Error ''Invalid character''" "rng_of []" "Some 2" "- 5"]
  by (simp add: sample_BN_def)

text \<open>
  The claim as stated fails at the input -5 (with a constructor that returns every integer
  as it is): the promise resolves, it is not rejected.
\<close>

theorem negative_input_resolves_counterexample:
  "testPrimality (\<lambda>i. Inr (Num i)) (rng_of []) (- 5 :: int) (Some 2)
     = Some (Resolved \<lparr>n = - 5, probablePrime = False, witness = None\<rparr>, 0)"
  by (simp add: testPrimality_def)

subsection \<open>The witness\<close>

text \<open>
  Claim C7. When the promise resolves, the witness is non-null exactly when
  \<open>probablePrime\<close> is false and some round found a witness; and it is \<open>b\<close> exactly when
  \<open>b\<close> is the base of the earliest round that proves compositeness, all rounds before it
  having passed. The run then made exactly the calls of the random source that the rounds
  up to that one make: no later round selected a base.
\<close>

theorem witness_is_earliest:
  assumes "testPrimality BN rng inp nr = Some (Resolved res, calls)"
  shows "(witness res \<noteq> None \<longleftrightarrow>
            \<not> probablePrime res
            \<and> (\<exists>k b. int k < rounds_of nr \<and> earliest_witness rng (n res) k b calls))
         \<and> (\<forall>b. witness res = Some b \<longleftrightarrow>
               (\<exists>k. int k < rounds_of nr \<and> earliest_witness rng (n res) k b calls))"
proof -
  from assms obtain v where v: "BN inp = Inr (Num v)"
    by (cases "BN inp") (auto simp: testPrimality_def Let_def split: bn.splits)
  show ?thesis
  proof (cases "v < 4")
    case True
    with assms v have "witness res = None" "n res = v"
      by (auto simp: testPrimality_def Let_def split: if_splits)
    with True show ?thesis by (simp add: earliest_witness_def Let_def)
  next
    case False
    define nBits where "nBits = bn_bitLength v"
    define nSub where "nSub = v - 1"
    define s where "s = bn_zeroBits nSub"
    define d where "d = nSub sdiv 2 ^ s"
    from assms v False obtain pp w where
      run: "rounds_loop rng v nBits nSub s d (rounds_of nr) 0 0 = Some ((pp, w), calls)"
      and res: "res = \<lparr>n = v, probablePrime = pp, witness = w\<rparr>"
      by (auto simp: testPrimality_def Let_def nBits_def nSub_def s_def d_def
          split: option.splits prod.splits)
    have ew: "earliest_witness rng v k b calls \<longleftrightarrow> witness_found rng v nBits nSub s d 0 k b calls"
      for k b
      using False by (simp add: earliest_witness_def Let_def nBits_def nSub_def s_def d_def)
    from rounds_loop_sound [OF run] have
      pp: "pp \<longleftrightarrow> w = None" and
      snd: "\<And>b. w = Some b \<Longrightarrow> \<exists>k. int k < rounds_of nr \<and> earliest_witness rng v k b calls"
      by (auto simp: ew)
    have cmp: "w = Some b" if "int k < rounds_of nr" "earliest_witness rng v k b calls" for k b
    proof -
      from that have "rounds_loop rng v nBits nSub s d (rounds_of nr) 0 0 = Some ((False, Some b), calls)"
        by (intro rounds_loop_complete) (simp_all add: ew)
      with run show ?thesis by simp
    qed
    have second: "\<forall>b. w = Some b \<longleftrightarrow>
        (\<exists>k. int k < rounds_of nr \<and> earliest_witness rng v k b calls)"
      using snd cmp by blast
    have first: "w \<noteq> None \<longleftrightarrow>
        \<not> pp \<and> (\<exists>k b. int k < rounds_of nr \<and> earliest_witness rng v k b calls)"
      using pp second by auto
    from first second show ?thesis by (simp add: res)
  qed
qed

lemma run_nine:
  "testPrimality (\<lambda>i. Inr (Num i)) (rng_of [ [False, True, False, False] ]) (9::int) (Some 3)
     = Some (Resolved \<lparr>n = 9, probablePrime = False, witness = Some 4\<rparr>, 1)"
  by code_simp

theorem witness_is_earliest_witness:
  "testPrimality (\<lambda>i. Inr (Num i)) (rng_of [ [False, True, False, False] ]) (9::int) (Some 3)
     = Some (Resolved \<lparr>n = 9, probablePrime = False, witness = Some 4\<rparr>, 1)
   \<and> (\<exists>k. int k < 3 \<and> earliest_witness (rng_of [ [False, True, False, False] ]) 9 k 4 1)"
proof -
  from witness_is_earliest [OF run_nine]
  have "\<forall>b. (b = 4) = (\<exists>k. int k < rounds_of (Some 3)
          \<and> earliest_witness (rng_of [ [False, True, False, False] ]) 9 k b 1)"
    by simp
  then have "\<exists>k. int k < rounds_of (Some 3)
          \<and> earliest_witness (rng_of [ [False, True, False, False] ]) 9 k 4 1"
    by blast
  then show ?thesis using run_nine by (simp add: rounds_of_def)
qed

end
